theory Spec2Isabelle
  imports Main
begin

section \<open>The emitter of src/index.ts over an explicit heap\<close>

text \<open>
  \<^verbatim>\<open>createEmitter\<close> allocates one \<^verbatim>\<open>Map\<close> (\<^verbatim>\<open>m\<close>, line 15) and returns three
  closures over it. \<^verbatim>\<open>on\<close> allocates a \<^verbatim>\<open>Set\<close> the first time an event name is used
  (line 19) and returns a closure that captured that \<^verbatim>\<open>Set\<close> object \<^verbatim>\<open>s\<close> itself
  (line 22), whereas \<^verbatim>\<open>off\<close> looks the \<^verbatim>\<open>Set\<close> up again through \<^verbatim>\<open>m\<close> (line 26).
  Object identity therefore matters, and the model keeps the \<^verbatim>\<open>Map\<close> and \<^verbatim>\<open>Set\<close>
  objects in a heap, addressed by references.

  A listener is a function object; \<^verbatim>\<open>Set\<close> compares function objects by reference, so a
  listener is represented by its reference. What calling it does is given separately by a
  behaviour \<open>beh\<close>: applied to the listener, the payload and the caller's state \<open>'w\<close> it
  yields a program that may call \<^verbatim>\<open>createEmitter\<close>, \<^verbatim>\<open>on\<close>, \<^verbatim>\<open>off\<close>, \<^verbatim>\<open>emit\<close> and
  unsubscribe closures, also of the emitter whose publish is calling it, and then returns or
  throws. \<^verbatim>\<open>emit\<close> hands the listener to \<^verbatim>\<open>Set.prototype.forEach\<close>, which walks the live
  \<^verbatim>\<open>Set\<close>: what a listener does to the \<^verbatim>\<open>Set\<close> during a publish decides which listeners
  the rest of that publish calls.
\<close>

type_synonym ref = nat
type_synonym listener = nat

record 'k heap =
  map_objs :: "ref \<Rightarrow> ('k \<rightharpoonup> ref)"
  set_objs :: "ref \<Rightarrow> listener option list"
  map_count :: nat
  set_count :: nat

text \<open>
  \<open>map_objs h m\<close> is the content of the \<^verbatim>\<open>Map\<close> object \<open>m\<close>: event name to the reference
  of a \<^verbatim>\<open>Set\<close>. \<open>set_objs h s\<close> is the \<^verbatim>\<open>SetData\<close> list of the \<^verbatim>\<open>Set\<close> object \<open>s\<close>
  as ECMAScript specifies it: the values in insertion order, where a deleted value leaves
  the mark \<^verbatim>\<open>empty\<close> (here \<open>None\<close>) in its place, so that the positions an iteration in
  progress has reached stay valid. The two counters are the next unused references.
\<close>

definition heap0 :: "'k heap" where
  "heap0 = \<lparr>map_objs = (\<lambda>_. Map.empty), set_objs = (\<lambda>_. []), map_count = 0, set_count = 0\<rparr>"

text \<open>The values of a \<^verbatim>\<open>SetData\<close> list: the elements of the \<^verbatim>\<open>Set\<close>, in insertion order.\<close>

fun entries :: "'a option list \<Rightarrow> 'a list" where
  "entries [] = []"
| "entries (None # es) = entries es"
| "entries (Some x # es) = x # entries es"

text \<open>A call either returns or throws; both leave a state behind.\<close>

datatype ('w, 'e) completion = Normal 'w | Throw 'e 'w

fun state_of :: "('w, 'e) completion \<Rightarrow> 'w" where
  "state_of (Normal w) = w"
| "state_of (Throw e w) = w"

subsection \<open>The built-in Map and Set operations the source uses\<close>

definition new_Map :: "'k heap \<Rightarrow> ref \<times> 'k heap" where
  "new_Map h =
     (map_count h,
      h\<lparr>map_objs := (map_objs h)(map_count h := Map.empty), map_count := Suc (map_count h)\<rparr>)"

definition new_Set :: "'k heap \<Rightarrow> ref \<times> 'k heap" where
  "new_Set h =
     (set_count h,
      h\<lparr>set_objs := (set_objs h)(set_count h := []), set_count := Suc (set_count h)\<rparr>)"

definition Map_get :: "ref \<Rightarrow> 'k \<Rightarrow> 'k heap \<Rightarrow> ref option" where
  "Map_get m key h = map_objs h m key"

definition Map_set :: "ref \<Rightarrow> 'k \<Rightarrow> ref \<Rightarrow> 'k heap \<Rightarrow> 'k heap" where
  "Map_set m key s h = h\<lparr>map_objs := (map_objs h)(m := (map_objs h m)(key \<mapsto> s))\<rparr>"

text \<open>
  \<^verbatim>\<open>Set.prototype.add\<close>: a value already in the list keeps its place and nothing changes,
  a new one is appended.
\<close>

definition Set_add :: "ref \<Rightarrow> listener \<Rightarrow> 'k heap \<Rightarrow> 'k heap" where
  "Set_add s v h =
     h\<lparr>set_objs := (set_objs h)(s := (if Some v \<in> set (set_objs h s) then set_objs h s
                                      else set_objs h s @ [Some v]))\<rparr>"

text \<open>
  \<^verbatim>\<open>Set.prototype.delete\<close>: the entry of the value is replaced by \<^verbatim>\<open>empty\<close>; the list
  keeps its length. A value deleted and added again is therefore a new, last entry.
\<close>

definition Set_delete :: "ref \<Rightarrow> listener \<Rightarrow> 'k heap \<Rightarrow> 'k heap" where
  "Set_delete s v h =
     h\<lparr>set_objs := (set_objs h)(s := map (\<lambda>e. if e = Some v then None else e) (set_objs h s))\<rparr>"

subsection \<open>createEmitter and its closures\<close>

text \<open>An emitter is the reference of its \<^verbatim>\<open>Map\<close>: the environment its closures share.\<close>

definition createEmitter :: "'k heap \<Rightarrow> ref \<times> 'k heap" where
  "createEmitter h = new_Map h"

text \<open>The closure \<^verbatim>\<open>() => { s.delete(listener) }\<close> with the two variables it captured.\<close>

datatype unsubscribe = Closure ref listener

fun call_unsubscribe :: "unsubscribe \<Rightarrow> 'k heap \<Rightarrow> 'k heap" where
  "call_unsubscribe (Closure s listener) h = Set_delete s listener h"

text \<open>
  \<^verbatim>\<open>on\<close>, lines 17 to 24: \<^verbatim>\<open>let s = m.get(event); if (!s) m.set(event, (s = new Set()));
  s.add(listener); return () => { s.delete(listener) }\<close>.
\<close>

definition on :: "ref \<Rightarrow> 'k \<Rightarrow> listener \<Rightarrow> 'k heap \<Rightarrow> unsubscribe \<times> 'k heap" where
  "on m event listener h =
     (case (case Map_get m event h of
              Some s \<Rightarrow> (s, h)
            | None \<Rightarrow> (case new_Set h of (s, h') \<Rightarrow> (s, Map_set m event s h'))) of
        (s, h1) \<Rightarrow> (Closure s listener, Set_add s listener h1))"

text \<open>\<^verbatim>\<open>off\<close>, lines 25 to 27: \<^verbatim>\<open>m.get(event)?.delete(listener)\<close>.\<close>

definition off :: "ref \<Rightarrow> 'k \<Rightarrow> listener \<Rightarrow> 'k heap \<Rightarrow> 'k heap" where
  "off m event listener h =
     (case Map_get m event h of
        None \<Rightarrow> h
      | Some s \<Rightarrow> Set_delete s listener h)"

subsection \<open>Listeners as programs, and emit\<close>

text \<open>
  What a listener does when it is called: a tree of calls of the interface, each with the
  continuation that receives its result, ending in a return or a throw with the caller's
  state. \<open>CallEmit\<close> hands the nested publish the state \<open>w\<close> and continues with its
  completion, so the listener may catch the exception of a nested publish or throw it on.
\<close>

datatype ('k, 'v, 'w, 'e) prog =
    Return 'w
  | Raise 'e 'w
  | CallCreate "ref \<Rightarrow> ('k, 'v, 'w, 'e) prog"
  | CallOn ref 'k listener "unsubscribe \<Rightarrow> ('k, 'v, 'w, 'e) prog"
  | CallOff ref 'k listener "('k, 'v, 'w, 'e) prog"
  | CallUnsub unsubscribe "('k, 'v, 'w, 'e) prog"
  | CallEmit ref 'k 'v 'w "('w, 'e) completion \<Rightarrow> ('k, 'v, 'w, 'e) prog"

text \<open>
  \<open>run_prog\<close> runs a listener's program and \<open>forEach\<close> is \<^verbatim>\<open>Set.prototype.forEach\<close> with
  the callback \<^verbatim>\<open>(fn) => { fn(data) }\<close> of line 30. As in ECMAScript, \<open>forEach\<close> walks the
  \<^verbatim>\<open>SetData\<close> list by index and reads the list again after every callback: it skips
  \<^verbatim>\<open>empty\<close> entries, so a listener deleted before its turn is not called, and it goes on
  while the index is below the current length, so a listener added during the walk is
  called. A callback that throws ends the walk, the heap staying as the callback left it.

  Listeners can register themselves again without end, so a publish need not return: the
  first argument is fuel, one unit for every nested call, and running out of it is the
  result \<open>None\<close>. Beside the outcome \<open>forEach\<close> gives the calls it made, in order, each with
  the listener and the argument, also when the fuel runs out; a call that has begun is
  listed.
\<close>

function run_prog ::
    "nat \<Rightarrow> (listener \<Rightarrow> 'v \<Rightarrow> 'w \<Rightarrow> ('k, 'v, 'w, 'e) prog) \<Rightarrow> ('k, 'v, 'w, 'e) prog \<Rightarrow> 'k heap
      \<Rightarrow> ('k heap \<times> ('w, 'e) completion) option"
  and forEach ::
    "nat \<Rightarrow> (listener \<Rightarrow> 'v \<Rightarrow> 'w \<Rightarrow> ('k, 'v, 'w, 'e) prog) \<Rightarrow> 'v \<Rightarrow> ref \<Rightarrow> nat \<Rightarrow> 'k heap \<Rightarrow> 'w
      \<Rightarrow> (listener \<times> 'v) list \<times> ('k heap \<times> ('w, 'e) completion) option"
where
  "run_prog 0 beh p h = None"
| "run_prog (Suc n) beh (Return w) h = Some (h, Normal w)"
| "run_prog (Suc n) beh (Raise e w) h = Some (h, Throw e w)"
| "run_prog (Suc n) beh (CallCreate cont) h =
     (case createEmitter h of (m, h') \<Rightarrow> run_prog n beh (cont m) h')"
| "run_prog (Suc n) beh (CallOn m event listener cont) h =
     (case on m event listener h of (u, h') \<Rightarrow> run_prog n beh (cont u) h')"
| "run_prog (Suc n) beh (CallOff m event listener p) h = run_prog n beh p (off m event listener h)"
| "run_prog (Suc n) beh (CallUnsub u p) h = run_prog n beh p (call_unsubscribe u h)"
| "run_prog (Suc n) beh (CallEmit m event data w cont) h =
     (case Map_get m event h of
        None \<Rightarrow> run_prog n beh (cont (Normal w)) h
      | Some s \<Rightarrow>
          (case snd (forEach n beh data s 0 h w) of
             None \<Rightarrow> None
           | Some (h', c) \<Rightarrow> run_prog n beh (cont c) h'))"
| "forEach n beh data s i h w =
     (if i < length (set_objs h s) then
        (case set_objs h s ! i of
           None \<Rightarrow> forEach n beh data s (Suc i) h w
         | Some fn \<Rightarrow>
             (case n of
                0 \<Rightarrow> ([], None)
              | Suc n' \<Rightarrow>
                  (case run_prog n' beh (beh fn data w) h of
                     None \<Rightarrow> ([(fn, data)], None)
                   | Some (h', Throw e w') \<Rightarrow> ([(fn, data)], Some (h', Throw e w'))
                   | Some (h', Normal w') \<Rightarrow>
                       (case forEach n' beh data s (Suc i) h' w' of
                          (calls, r) \<Rightarrow> ((fn, data) # calls, r)))))
      else ([], Some (h, Normal w)))"
  by pat_completeness auto
termination
  by (relation "inv_image (less_than <*lex*> less_than)
        (\<lambda>x. case x of Inl (n, beh, p, h) \<Rightarrow> (n, 0)
                      | Inr (n, beh, data, s, i, h, w) \<Rightarrow> (n, length (set_objs h s) - i))")
     auto

text \<open>
  \<^verbatim>\<open>emit\<close>, lines 28 to 32: \<^verbatim>\<open>m.get(event)?.forEach((fn) => { fn(data) })\<close>. Nothing
  catches, so a listener's exception is the exception of \<^verbatim>\<open>emit\<close>.
\<close>

definition emit ::
  "nat \<Rightarrow> (listener \<Rightarrow> 'v \<Rightarrow> 'w \<Rightarrow> ('k, 'v, 'w, 'e) prog) \<Rightarrow> ref \<Rightarrow> 'k \<Rightarrow> 'v \<Rightarrow> 'k heap \<Rightarrow> 'w
    \<Rightarrow> (listener \<times> 'v) list \<times> ('k heap \<times> ('w, 'e) completion) option" where
  "emit n beh m event data h w =
     (case Map_get m event h of
        None \<Rightarrow> ([], Some (h, Normal w))
      | Some s \<Rightarrow> forEach n beh data s 0 h w)"

subsection \<open>The registry a caller observes\<close>

text \<open>
  The listeners registered for an event name of an emitter, in subscription order: the
  elements of the \<^verbatim>\<open>Set\<close> the \<^verbatim>\<open>Map\<close> holds for the name, none if it holds no \<^verbatim>\<open>Set\<close>.
\<close>

definition listeners :: "'k heap \<Rightarrow> ref \<Rightarrow> 'k \<Rightarrow> listener list" where
  "listeners h m event = (case Map_get m event h of None \<Rightarrow> [] | Some s \<Rightarrow> entries (set_objs h s))"

text \<open>
  What every heap built through the interface satisfies: a \<^verbatim>\<open>Set\<close> held by a \<^verbatim>\<open>Map\<close> has
  been allocated, no \<^verbatim>\<open>Set\<close> is held under two names or by two emitters, and a \<^verbatim>\<open>Set\<close> has
  every element once.
\<close>

definition heap_ok :: "'k heap \<Rightarrow> bool" where
  "heap_ok h \<longleftrightarrow>
     (\<forall>m k s. map_objs h m k = Some s \<longrightarrow> s < set_count h) \<and>
     (\<forall>m k m' k' s. map_objs h m k = Some s \<and> map_objs h m' k' = Some s \<longrightarrow> m = m' \<and> k = k') \<and>
     (\<forall>s. distinct (entries (set_objs h s)))"

subsection \<open>Callers: sequences of operations\<close>

datatype ('k, 'v) op =
    Create
  | On ref 'k listener
  | Off ref 'k listener
  | Emit ref 'k 'v
  | Unsub unsubscribe

text \<open>
  One operation of a caller, on the heap and the caller's state. A publish changes the heap
  as its listeners do. A caller that goes on after a publish threw has caught the exception;
  a publish that does not return leaves the caller without a next state.
\<close>

fun exec ::
  "nat \<Rightarrow> (listener \<Rightarrow> 'v \<Rightarrow> 'w \<Rightarrow> ('k, 'v, 'w, 'e) prog) \<Rightarrow> ('k, 'v) op \<Rightarrow> 'k heap \<times> 'w
    \<Rightarrow> ('k heap \<times> 'w) option" where
  "exec n beh Create (h, w) = Some (snd (createEmitter h), w)"
| "exec n beh (On m event listener) (h, w) = Some (snd (on m event listener h), w)"
| "exec n beh (Off m event listener) (h, w) = Some (off m event listener h, w)"
| "exec n beh (Emit m event data) (h, w) =
     (case snd (emit n beh m event data h w) of
        None \<Rightarrow> None
      | Some (h', c) \<Rightarrow> Some (h', state_of c))"
| "exec n beh (Unsub u) (h, w) = Some (call_unsubscribe u h, w)"

fun run ::
  "nat \<Rightarrow> (listener \<Rightarrow> 'v \<Rightarrow> 'w \<Rightarrow> ('k, 'v, 'w, 'e) prog) \<Rightarrow> ('k, 'v) op list \<Rightarrow> 'k heap \<times> 'w
    \<Rightarrow> ('k heap \<times> 'w) option" where
  "run n beh [] st = Some st"
| "run n beh (x # xs) st = (case exec n beh x st of None \<Rightarrow> None | Some st' \<Rightarrow> run n beh xs st')"

text \<open>
  The effect on the heap of the operation itself; that of a publish is the effect of the
  calls its listeners make.
\<close>

fun apply_op :: "('k, 'v) op \<Rightarrow> 'k heap \<Rightarrow> 'k heap" where
  "apply_op Create h = snd (createEmitter h)"
| "apply_op (On m event listener) h = snd (on m event listener h)"
| "apply_op (Off m event listener) h = off m event listener h"
| "apply_op (Emit m event data) h = h"
| "apply_op (Unsub u) h = call_unsubscribe u h"

text \<open>Every call of the interface that a listener's program can make satisfies \<open>A\<close>.\<close>

primrec calls_ok :: "(('k, 'v) op \<Rightarrow> bool) \<Rightarrow> ('k, 'v, 'w, 'e) prog \<Rightarrow> bool" where
  "calls_ok A (Return w) = True"
| "calls_ok A (Raise e w) = True"
| "calls_ok A (CallCreate cont) = (A Create \<and> (\<forall>m. calls_ok A (cont m)))"
| "calls_ok A (CallOn m event listener cont) = (A (On m event listener) \<and> (\<forall>u. calls_ok A (cont u)))"
| "calls_ok A (CallOff m event listener p) = (A (Off m event listener) \<and> calls_ok A p)"
| "calls_ok A (CallUnsub u p) = (A (Unsub u) \<and> calls_ok A p)"
| "calls_ok A (CallEmit m event data w cont) = (A (Emit m event data) \<and> (\<forall>c. calls_ok A (cont c)))"




text \<open>
  The operation registers or removes a listener of the emitter \<open>m\<close>: \<^verbatim>\<open>on\<close> or \<^verbatim>\<open>off\<close> of
  \<open>m\<close>, or a closure over a \<^verbatim>\<open>Set\<close> that \<open>m\<close> holds in the heap \<open>h\<close>.
\<close>

fun registers_on :: "'k heap \<Rightarrow> ref \<Rightarrow> ('k, 'v) op \<Rightarrow> bool" where
  "registers_on h m (On m' event listener) = (m' = m)"
| "registers_on h m (Off m' event listener) = (m' = m)"
| "registers_on h m (Unsub (Closure s listener)) = (\<exists>event. Map_get m event h = Some s)"
| "registers_on h m Create = False"
| "registers_on h m (Emit m' event data) = False"

text \<open>The heaps a program can build from the empty heap through the interface.\<close>

inductive reachable :: "'k heap \<Rightarrow> bool" where
  initial: "reachable heap0"
| create: "reachable h \<Longrightarrow> reachable (snd (createEmitter h))"
| register: "reachable h \<Longrightarrow> m < map_count h \<Longrightarrow> reachable (snd (on m event listener h))"
| unregister: "reachable h \<Longrightarrow> m < map_count h \<Longrightarrow> reachable (off m event listener h)"
| unsubscribe: "reachable h \<Longrightarrow> s < set_count h \<Longrightarrow> reachable (call_unsubscribe (Closure s listener) h)"

subsection \<open>Listeners and heaps for the examples\<close>

type_synonym log = "(listener \<times> string) list"

text \<open>A listener that records its call, as a test's mock function does.\<close>

definition recorder :: "listener \<Rightarrow> string \<Rightarrow> log \<Rightarrow> (string, string, log, string) prog" where
  "recorder fn data w = Return (w @ [(fn, data)])"

text \<open>The same, but the listener \<open>bad\<close> throws instead.\<close>

definition thrower :: "listener \<Rightarrow> listener \<Rightarrow> string \<Rightarrow> log \<Rightarrow> (string, string, log, string) prog" where
  "thrower bad fn data w = (if fn = bad then Raise ''boom'' w else Return (w @ [(fn, data)]))"

text \<open>
  The listener \<open>who\<close> calls \<^verbatim>\<open>off('message', victim)\<close> of emitter 0 and then records its
  call; the others record theirs.
\<close>

definition remover :: "listener \<Rightarrow> listener \<Rightarrow> listener \<Rightarrow> string \<Rightarrow> log \<Rightarrow> (string, string, log, string) prog" where
  "remover who victim fn data w =
     (if fn = who then CallOff 0 ''message'' victim (Return (w @ [(fn, data)]))
      else Return (w @ [(fn, data)]))"

text \<open>The same, and the listener \<open>bad\<close> throws.\<close>

definition remove_and_throw ::
  "listener \<Rightarrow> listener \<Rightarrow> listener \<Rightarrow> listener \<Rightarrow> string \<Rightarrow> log \<Rightarrow> (string, string, log, string) prog" where
  "remove_and_throw who victim bad fn data w =
     (if fn = bad then Raise ''boom'' w
      else if fn = who then CallOff 0 ''message'' victim (Return (w @ [(fn, data)]))
      else Return (w @ [(fn, data)]))"

text \<open>
  Every listener calls \<^verbatim>\<open>off('message', itself)\<close> and \<^verbatim>\<open>on('message', itself)\<close> of
  emitter 0 and then records its call.
\<close>

definition resubscriber :: "listener \<Rightarrow> string \<Rightarrow> log \<Rightarrow> (string, string, log, string) prog" where
  "resubscriber fn data w =
     CallOff 0 ''message'' fn (CallOn 0 ''message'' fn (\<lambda>u. Return (w @ [(fn, data)])))"

text \<open>One emitter, number 0, and nothing registered.\<close>

definition fresh :: "string heap" where
  "fresh = snd (createEmitter heap0)"

text \<open>Listeners 5 and 7 registered for \<^verbatim>\<open>message\<close>, in this order.\<close>

definition two_listeners :: "string heap" where
  "two_listeners = snd (on 0 ''message'' 7 (snd (on 0 ''message'' 5 fresh)))"

text \<open>Listeners 5, 7 and 9 registered for \<^verbatim>\<open>message\<close>.\<close>

definition three_listeners :: "string heap" where
  "three_listeners = snd (on 0 ''message'' 9 two_listeners)"

text \<open>
  Listener 7 registered for \<^verbatim>\<open>message\<close>; registered a second time; removed by the closure
  of the first registration; registered again after that.
\<close>

definition registered :: "unsubscribe \<times> string heap" where
  "registered = on 0 ''message'' 7 fresh"

definition registered_twice :: "unsubscribe \<times> string heap" where
  "registered_twice = on 0 ''message'' 7 (snd registered)"

definition unsubscribed :: "string heap" where
  "unsubscribed = call_unsubscribe (fst registered) (snd registered)"

definition resubscribed :: "unsubscribe \<times> string heap" where
  "resubscribed = on 0 ''message'' 7 unsubscribed"

text \<open>Two emitters, 0 and 1, each with one listener for \<^verbatim>\<open>message\<close>: 5 on 0, 7 on 1.\<close>

definition two_emitters :: "string heap" where
  "two_emitters = snd (on 1 ''message'' 7 (snd (on 0 ''message'' 5 (snd (createEmitter fresh)))))"

text \<open>
  Operations of every kind, none of which registers listener 7 for \<^verbatim>\<open>message\<close> on emitter
  0; the same followed by that registration.
\<close>

definition between :: "(string, string) op list" where
  "between =
     [On 0 ''message'' 5, Emit 0 ''message'' ''hello'', Unsub (Closure 0 7), Create,
      On 1 ''message'' 7, On 0 ''click'' 7, Off 0 ''message'' 9]"

definition between_registering :: "(string, string) op list" where
  "between_registering = between @ [On 0 ''message'' 7]"

text \<open>Listener 7 registered for \<^verbatim>\<open>message\<close>, called by a publish and removed again.\<close>

definition register_and_remove :: "(string, string) op list" where
  "register_and_remove = [On 0 ''message'' 7, Emit 0 ''message'' ''hello'', Off 0 ''message'' 7]"

text \<open>Operations that leave the listeners of \<^verbatim>\<open>message\<close> on emitter 0 without listener 7.\<close>

definition elsewhere :: "(string, string) op list" where
  "elsewhere = [On 0 ''message'' 5, Create, On 1 ''message'' 7, Emit 0 ''click'' ''x'', Emit 0 ''message'' ''y'']"

section \<open>Basic facts\<close>

subsection \<open>The registry after an operation, and the invariant\<close>

lemma entries_append [simp]: "entries (es @ es') = entries es @ entries es'"
  by (induction es rule: entries.induct) simp_all

lemma set_entries [simp]: "x \<in> set (entries es) \<longleftrightarrow> Some x \<in> set es"
  by (induction es rule: entries.induct) auto

lemma entries_delete [simp]:
  "entries (map (\<lambda>e. if e = Some v then None else e) es) = removeAll v (entries es)"
  by (induction es rule: entries.induct) auto

lemma delete_absent: "Some v \<notin> set es \<Longrightarrow> map (\<lambda>e. if e = Some v then None else e) es = es"
  by (induction es) auto

lemma delete_present: "Some v \<in> set es \<Longrightarrow> map (\<lambda>e. if e = Some v then None else e) es \<noteq> es"
  by (induction es) auto

lemma Map_get_simps [simp]:
  "Map_get m k (Map_set m' k' s h) = (if m = m' \<and> k = k' then Some s else Map_get m k h)"
  "Map_get m k (Set_add s v h) = Map_get m k h"
  "Map_get m k (Set_delete s v h) = Map_get m k h"
  "Map_get m k (snd (new_Set h)) = Map_get m k h"
  by (simp_all add: Map_get_def Map_set_def Set_add_def Set_delete_def new_Set_def)

lemma set_objs_simps [simp]:
  "set_objs (Map_set m k s h) = set_objs h"
  "set_objs (Set_delete s v h) s' =
     (if s' = s then map (\<lambda>e. if e = Some v then None else e) (set_objs h s) else set_objs h s')"
  "set_objs (Set_add s v h) s' =
     (if s' = s then (if Some v \<in> set (set_objs h s) then set_objs h s else set_objs h s @ [Some v])
      else set_objs h s')"
  "set_objs (snd (new_Set h)) s' = (if s' = set_count h then [] else set_objs h s')"
  by (simp_all add: Map_set_def Set_add_def Set_delete_def new_Set_def)

lemma Set_delete_absent: "v \<notin> set (entries (set_objs h s)) \<Longrightarrow> Set_delete s v h = h"
  by (simp add: Set_delete_def delete_absent)

lemma Set_delete_present: "v \<in> set (entries (set_objs h s)) \<Longrightarrow> Set_delete s v h \<noteq> h"
proof
  assume a: "v \<in> set (entries (set_objs h s))" and b: "Set_delete s v h = h"
  from b have "set_objs (Set_delete s v h) s = set_objs h s"
    by simp
  with delete_present [of v "set_objs h s"] a show False
    by simp
qed


lemma on_Some: "Map_get m event h = Some s \<Longrightarrow> on m event f h = (Closure s f, Set_add s f h)"
  by (simp add: on_def)

lemma on_None:
  "Map_get m event h = None \<Longrightarrow>
   on m event f h = (Closure (set_count h) f, Set_add (set_count h) f (Map_set m event (set_count h) (snd (new_Set h))))"
  by (simp add: on_def new_Set_def)

lemma listeners_on_same:
  "listeners (snd (on m N f h)) m N =
     (if f \<in> set (listeners h m N) then listeners h m N else listeners h m N @ [f])"
proof (cases "Map_get m N h")
  case None
  then show ?thesis by (simp add: on_None listeners_def)
next
  case (Some s)
  then show ?thesis by (simp add: on_Some listeners_def)
qed

lemma on_closure:
  "on m N f h = (u, h1) \<Longrightarrow> \<exists>s. u = Closure s f \<and> Map_get m N h1 = Some s"
  by (cases "Map_get m N h") (auto simp: on_None on_Some)

lemma call_unsubscribe_off:
  "Map_get m N h = Some s \<Longrightarrow> call_unsubscribe (Closure s f) h = off m N f h"
  by (simp add: off_def)

lemma listeners_off_same: "listeners (off m N f h) m N = removeAll f (listeners h m N)"
  by (simp add: off_def listeners_def split: option.splits)

lemma heap_okD1: "heap_ok h \<Longrightarrow> Map_get m k h = Some s \<Longrightarrow> s < set_count h"
  by (auto simp: heap_ok_def Map_get_def)

lemma heap_okD2:
  "heap_ok h \<Longrightarrow> Map_get m k h = Some s \<Longrightarrow> Map_get m' k' h = Some s \<Longrightarrow> m = m' \<and> k = k'"
  unfolding heap_ok_def Map_get_def by blast

lemma heap_okD3: "heap_ok h \<Longrightarrow> distinct (entries (set_objs h s))"
  by (simp add: heap_ok_def)


lemma heap_ok_heap0: "heap_ok heap0"
  by (simp add: heap_ok_def heap0_def)

lemma heap_ok_Set_delete: "heap_ok h \<Longrightarrow> heap_ok (Set_delete s v h)"
  by (simp add: heap_ok_def Set_delete_def distinct_removeAll)

lemma heap_ok_Set_add: "heap_ok h \<Longrightarrow> heap_ok (Set_add s v h)"
  by (simp add: heap_ok_def Set_add_def)

lemma heap_ok_createEmitter: "heap_ok h \<Longrightarrow> heap_ok (snd (createEmitter h))"
  unfolding heap_ok_def createEmitter_def new_Map_def
  by (auto split: if_splits)

lemma heap_okI:
  assumes "\<And>m k s. Map_get m k h = Some s \<Longrightarrow> s < set_count h"
    and "\<And>m k m' k' s. Map_get m k h = Some s \<Longrightarrow> Map_get m' k' h = Some s \<Longrightarrow> m = m' \<and> k = k'"
    and "\<And>s. distinct (entries (set_objs h s))"
  shows "heap_ok h"
  using assms unfolding heap_ok_def Map_get_def by blast

lemma heap_ok_alloc:
  assumes ok: "heap_ok h" and none: "Map_get m N h = None"
  shows "heap_ok (Map_set m N (set_count h) (snd (new_Set h)))"
proof (rule heap_okI)
  fix m' k s
  assume "Map_get m' k (Map_set m N (set_count h) (snd (new_Set h))) = Some s"
  then have "s = set_count h \<or> Map_get m' k h = Some s"
    by (simp split: if_splits)
  then have "s \<le> set_count h"
    using heap_okD1 [OF ok] by (auto simp: less_imp_le)
  then show "s < set_count (Map_set m N (set_count h) (snd (new_Set h)))"
    by (simp add: Map_set_def new_Set_def)
next
  fix m1 k1 m2 k2 s
  assume a: "Map_get m1 k1 (Map_set m N (set_count h) (snd (new_Set h))) = Some s"
    and b: "Map_get m2 k2 (Map_set m N (set_count h) (snd (new_Set h))) = Some s"
  have old: "Map_get m' k' h \<noteq> Some (set_count h)" for m' k'
    using heap_okD1 [OF ok, of m' k' "set_count h"] by auto
  show "m1 = m2 \<and> k1 = k2"
  proof (cases "s = set_count h")
    case True
    with a b old show ?thesis by (auto split: if_splits)
  next
    case False
    with a b have "Map_get m1 k1 h = Some s" "Map_get m2 k2 h = Some s"
      by (auto split: if_splits)
    then show ?thesis by (rule heap_okD2 [OF ok])
  qed
next
  fix s
  show "distinct (entries (set_objs (Map_set m N (set_count h) (snd (new_Set h))) s))"
    using heap_okD3 [OF ok] by simp
qed

lemma heap_ok_on: "heap_ok h \<Longrightarrow> heap_ok (snd (on m N f h))"
  by (cases "Map_get m N h") (simp_all add: on_None on_Some heap_ok_Set_add heap_ok_alloc)

lemma heap_ok_off: "heap_ok h \<Longrightarrow> heap_ok (off m N f h)"
  by (simp add: off_def heap_ok_Set_delete split: option.splits)

lemma heap_ok_call_unsubscribe: "heap_ok h \<Longrightarrow> heap_ok (call_unsubscribe u h)"
  by (cases u) (simp add: heap_ok_Set_delete)

lemma reachable_heap_ok: "reachable h \<Longrightarrow> heap_ok h"
  by (induction rule: reachable.induct)
     (simp_all add: heap_ok_heap0 heap_ok_createEmitter heap_ok_on heap_ok_off heap_ok_Set_delete)

lemma listeners_on_other:
  assumes "heap_ok h" and "(m', k') \<noteq> (m, N)"
  shows "listeners (snd (on m N f h)) m' k' = listeners h m' k'"
proof (cases "Map_get m N h")
  case None
  show ?thesis
  proof (cases "Map_get m' k' h")
    case None
    with \<open>Map_get m N h = None\<close> assms(2) show ?thesis
      by (simp add: on_None listeners_def)
  next
    case (Some s')
    with assms(1) have "s' \<noteq> set_count h"
      using heap_okD1 by fastforce
    with Some \<open>Map_get m N h = None\<close> assms(2) show ?thesis
      by (auto simp add: on_None listeners_def)
  qed
next
  case (Some s)
  show ?thesis
  proof (cases "Map_get m' k' h")
    case None
    with Some show ?thesis by (simp add: on_Some listeners_def)
  next
    case s': (Some s')
    with Some assms have "s' \<noteq> s"
      using heap_okD2 by fastforce
    with Some s' show ?thesis by (simp add: on_Some listeners_def)
  qed
qed

lemma listeners_Set_delete_other:
  assumes "heap_ok h" and "Map_get m N h = Some s" and "(m', k') \<noteq> (m, N)"
  shows "listeners (Set_delete s f h) m' k' = listeners h m' k'"
proof (cases "Map_get m' k' h")
  case None
  then show ?thesis by (simp add: listeners_def)
next
  case (Some s')
  with assms have "s' \<noteq> s"
    using heap_okD2 by fastforce
  with Some show ?thesis by (simp add: listeners_def)
qed

lemma listeners_off_other:
  assumes "heap_ok h" and "(m', k') \<noteq> (m, N)"
  shows "listeners (off m N f h) m' k' = listeners h m' k'"
  using assms by (cases "Map_get m N h") (simp_all add: off_def listeners_Set_delete_other)

lemma map_count_simps [simp]:
  "map_count (Set_add s v h) = map_count h"
  "map_count (Set_delete s v h) = map_count h"
  "map_count (Map_set m k s h) = map_count h"
  "map_count (snd (new_Set h)) = map_count h"
  "map_count (snd (createEmitter h)) = Suc (map_count h)"
  by (simp_all add: Set_add_def Set_delete_def Map_set_def new_Set_def createEmitter_def new_Map_def)

lemma map_count_on [simp]: "map_count (snd (on m N f h)) = map_count h"
  by (cases "Map_get m N h") (simp_all add: on_None on_Some)

lemma map_count_off [simp]: "map_count (off m N f h) = map_count h"
  by (simp add: off_def split: option.splits)

lemma map_count_call_unsubscribe [simp]: "map_count (call_unsubscribe u h) = map_count h"
  by (cases u) simp

lemma Map_get_createEmitter:
  "m < map_count h \<Longrightarrow> Map_get m N (snd (createEmitter h)) = Map_get m N h"
  by (simp add: createEmitter_def new_Map_def Map_get_def)

lemma Map_get_on:
  "Map_get m N h = Some s \<Longrightarrow> Map_get m N (snd (on m' k' f' h)) = Some s"
  by (cases "Map_get m' k' h") (auto simp: on_None on_Some)

lemma Map_get_off [simp]: "Map_get m N (off m' k' f' h) = Map_get m N h"
  by (simp add: off_def split: option.splits)

lemma Map_get_call_unsubscribe [simp]: "Map_get m N (call_unsubscribe u h) = Map_get m N h"
  by (cases u) simp

lemma listeners_createEmitter:
  "m < map_count h \<Longrightarrow> listeners (snd (createEmitter h)) m N = listeners h m N"
proof -
  assume "m < map_count h"
  moreover have "set_objs (snd (createEmitter h)) = set_objs h"
    by (simp add: createEmitter_def new_Map_def)
  ultimately show ?thesis
    by (simp add: listeners_def Map_get_createEmitter split: option.splits)
qed

lemma listeners_call_unsubscribe:
  "set (listeners (call_unsubscribe u h) m k) \<subseteq> set (listeners h m k)"
  by (cases u) (auto simp: listeners_def split: option.splits if_splits)

subsection \<open>The steps of the iteration, and more fuel\<close>

declare forEach.simps [simp del]

lemma forEach_end:
  "\<not> i < length (set_objs h s) \<Longrightarrow> forEach n beh v s i h w = ([], Some (h, Normal w))"
  by (subst forEach.simps) simp

lemma forEach_hole:
  "i < length (set_objs h s) \<Longrightarrow> set_objs h s ! i = None \<Longrightarrow>
   forEach n beh v s i h w = forEach n beh v s (Suc i) h w"
  by (subst forEach.simps) simp

lemma forEach_0:
  "i < length (set_objs h s) \<Longrightarrow> set_objs h s ! i = Some fn \<Longrightarrow>
   forEach 0 beh v s i h w = ([], None)"
  by (subst forEach.simps) simp

lemma forEach_Suc:
  "i < length (set_objs h s) \<Longrightarrow> set_objs h s ! i = Some fn \<Longrightarrow>
   forEach (Suc n) beh v s i h w =
     (case run_prog n beh (beh fn v w) h of
        None \<Rightarrow> ([(fn, v)], None)
      | Some (h', Throw e w') \<Rightarrow> ([(fn, v)], Some (h', Throw e w'))
      | Some (h', Normal w') \<Rightarrow>
          (case forEach n beh v s (Suc i) h' w' of (calls, r) \<Rightarrow> ((fn, v) # calls, r)))"
  by (subst forEach.simps) simp

lemma fuel_mono:
  "\<forall>r k. run_prog n beh p h = Some r \<longrightarrow> n \<le> k \<longrightarrow> run_prog k beh p h = Some r"
  "\<forall>calls r k. forEach n beh v s i h w = (calls, Some r) \<longrightarrow> n \<le> k \<longrightarrow>
      forEach k beh v s i h w = (calls, Some r)"
proof (induction n beh p h and n beh v s i h w rule: run_prog_forEach.induct)
  case (1 beh p h)
  then show ?case by simp
next
  case (2 n beh w h)
  show ?case
  proof (intro allI impI)
    fix r k
    assume a: "run_prog (Suc n) beh (Return w) h = Some r" and "Suc n \<le> k"
    then obtain k' where "k = Suc k'"
      by (cases k) auto
    with a show "run_prog k beh (Return w) h = Some r"
      by simp
  qed
next
  case (3 n beh e w h)
  show ?case
  proof (intro allI impI)
    fix r k
    assume a: "run_prog (Suc n) beh (Raise e w) h = Some r" and "Suc n \<le> k"
    then obtain k' where "k = Suc k'"
      by (cases k) auto
    with a show "run_prog k beh (Raise e w) h = Some r"
      by simp
  qed
next
  case (4 n beh cont h)
  show ?case
  proof (intro allI impI)
    fix r k
    assume a: "run_prog (Suc n) beh (CallCreate cont) h = Some r" and "Suc n \<le> k"
    then obtain k' where k: "k = Suc k'" and le: "n \<le> k'"
      by (cases k) auto
    obtain m h' where c: "createEmitter h = (m, h')"
      by (cases "createEmitter h")
    with a have "run_prog n beh (cont m) h' = Some r"
      by simp
    with 4 [of m h'] c le have "run_prog k' beh (cont m) h' = Some r"
      by simp
    with c k show "run_prog k beh (CallCreate cont) h = Some r"
      by simp
  qed
next
  case (5 n beh m event listener cont h)
  show ?case
  proof (intro allI impI)
    fix r k
    assume a: "run_prog (Suc n) beh (CallOn m event listener cont) h = Some r" and "Suc n \<le> k"
    then obtain k' where k: "k = Suc k'" and le: "n \<le> k'"
      by (cases k) auto
    obtain u h' where c: "on m event listener h = (u, h')"
      by (cases "on m event listener h")
    with a have "run_prog n beh (cont u) h' = Some r"
      by simp
    with 5 [of u h'] c le have "run_prog k' beh (cont u) h' = Some r"
      by simp
    with c k show "run_prog k beh (CallOn m event listener cont) h = Some r"
      by simp
  qed
next
  case (6 n beh m event listener p h)
  show ?case
  proof (intro allI impI)
    fix r k
    assume a: "run_prog (Suc n) beh (CallOff m event listener p) h = Some r" and "Suc n \<le> k"
    then obtain k' where k: "k = Suc k'" and le: "n \<le> k'"
      by (cases k) auto
    from a have "run_prog n beh p (off m event listener h) = Some r"
      by simp
    with 6 le have "run_prog k' beh p (off m event listener h) = Some r"
      by blast
    with k show "run_prog k beh (CallOff m event listener p) h = Some r"
      by simp
  qed
next
  case (7 n beh u p h)
  show ?case
  proof (intro allI impI)
    fix r k
    assume a: "run_prog (Suc n) beh (CallUnsub u p) h = Some r" and "Suc n \<le> k"
    then obtain k' where k: "k = Suc k'" and le: "n \<le> k'"
      by (cases k) auto
    from a have "run_prog n beh p (call_unsubscribe u h) = Some r"
      by simp
    with 7 le have "run_prog k' beh p (call_unsubscribe u h) = Some r"
      by blast
    with k show "run_prog k beh (CallUnsub u p) h = Some r"
      by simp
  qed
next
  case (8 n beh m event data w cont h)
  show ?case
  proof (intro allI impI)
    fix r k
    assume a: "run_prog (Suc n) beh (CallEmit m event data w cont) h = Some r" and "Suc n \<le> k"
    then obtain k' where k: "k = Suc k'" and le: "n \<le> k'"
      by (cases k) auto
    show "run_prog k beh (CallEmit m event data w cont) h = Some r"
    proof (cases "Map_get m event h")
      case None
      with a have "run_prog n beh (cont (Normal w)) h = Some r"
        by simp
      with 8(1) [OF None] le have "run_prog k' beh (cont (Normal w)) h = Some r"
        by simp
      with None k show ?thesis by simp
    next
      case (Some s)
      with a obtain h' c where f: "snd (forEach n beh data s 0 h w) = Some (h', c)"
        and r: "run_prog n beh (cont c) h' = Some r"
        by (auto split: option.splits)
      from f have "forEach n beh data s 0 h w = (fst (forEach n beh data s 0 h w), Some (h', c))"
        by (cases "forEach n beh data s 0 h w") simp
      with 8(2) [OF Some] le
      have "forEach k' beh data s 0 h w = (fst (forEach n beh data s 0 h w), Some (h', c))"
        by blast
      then have f': "snd (forEach k' beh data s 0 h w) = Some (h', c)"
        by simp
      from 8(3) [OF Some f, of h' c] r le have "run_prog k' beh (cont c) h' = Some r"
        by simp
      with f' Some k show ?thesis by simp
    qed
  qed
next
  case (9 n beh data s i h w)
  show ?case
  proof (intro allI impI)
    fix calls r k
    assume a: "forEach n beh data s i h w = (calls, Some r)" and le: "n \<le> k"
    show "forEach k beh data s i h w = (calls, Some r)"
    proof (cases "i < length (set_objs h s)")
      case False
      with a show ?thesis by (simp add: forEach_end)
    next
      case True
      show ?thesis
      proof (cases "set_objs h s ! i")
        case None
        with True a have "forEach n beh data s (Suc i) h w = (calls, Some r)"
          by (simp add: forEach_hole)
        with 9(1) [OF True None] le have "forEach k beh data s (Suc i) h w = (calls, Some r)"
          by blast
        with True None show ?thesis by (simp add: forEach_hole)
      next
        case (Some fn)
        from a True Some obtain n' where n: "n = Suc n'"
          by (cases n) (auto simp: forEach_0)
        with le obtain k' where k: "k = Suc k'" and le': "n' \<le> k'"
          by (cases k) auto
        note eq = forEach_Suc [OF True Some, of n' beh data w]
        note eq' = forEach_Suc [OF True Some, of k' beh data w]
        show ?thesis
        proof (cases "run_prog n' beh (beh fn data w) h")
          case None
          with a n eq show ?thesis by simp
        next
          case rp: (Some hc)
          obtain h' c where hc: "hc = (h', c)"
            by (cases hc)
          from 9(2) [OF True Some n] rp le' have rp': "run_prog k' beh (beh fn data w) h = Some hc"
            by blast
          show ?thesis
          proof (cases c)
            case (Throw e w')
            with a n eq rp hc have "calls = [(fn, data)]" "r = (h', Throw e w')"
              by simp_all
            with Throw eq' rp' hc k show ?thesis
              by simp
          next
            case (Normal w')
            obtain calls' r' where rest: "forEach n' beh data s (Suc i) h' w' = (calls', r')"
              by (cases "forEach n' beh data s (Suc i) h' w'")
            with a n eq rp hc Normal have calls: "calls = (fn, data) # calls'" and r': "r' = Some r"
              by simp_all
            from rp hc have rp0: "run_prog n' beh (beh fn data w) h = Some (h', c)"
              by simp
            from 9(3) [OF True Some n rp0 refl Normal] rest r' le'
            have "forEach k' beh data s (Suc i) h' w' = (calls', Some r)"
              by blast
            with eq' rp' hc Normal calls k show ?thesis
              by simp
          qed
        qed
      qed
    qed
  qed
qed


lemma forEach_mono:
  "forEach n beh v s i h w = (calls, Some r) \<Longrightarrow> n \<le> k \<Longrightarrow> forEach k beh v s i h w = (calls, Some r)"
  by (rule fuel_mono(2) [rule_format])

subsection \<open>What a publish keeps\<close>

lemma invariant:
  fixes P :: "'k heap \<Rightarrow> bool" and A :: "('k, 'v) op \<Rightarrow> bool"
  assumes step: "\<And>x h. A x \<Longrightarrow> P h \<Longrightarrow> P (apply_op x h)"
  shows "\<forall>h' c. (\<forall>fn v w. calls_ok A (beh fn v w)) \<longrightarrow> P h \<longrightarrow> calls_ok A p \<longrightarrow>
           run_prog n beh p h = Some (h', c) \<longrightarrow> P h'"
    and "\<forall>calls h' c. (\<forall>fn v w. calls_ok A (beh fn v w)) \<longrightarrow> P h \<longrightarrow>
           forEach n beh v s i h w = (calls, Some (h', c)) \<longrightarrow> P h'"
proof (induction n beh p h and n beh v s i h w rule: run_prog_forEach.induct)
  case (1 beh p h)
  then show ?case by simp
next
  case (2 n beh w h)
  then show ?case by simp
next
  case (3 n beh e w h)
  then show ?case by simp
next
  case (4 n beh cont h)
  show ?case
  proof (intro allI impI)
    fix h' c
    assume B: "\<forall>fn v w. calls_ok A (beh fn v w)"
    assume P: "P h" and ok: "calls_ok A (CallCreate cont)"
      and r: "run_prog (Suc n) beh (CallCreate cont) h = Some (h', c)"
    obtain m h1 where ce: "createEmitter h = (m, h1)"
      by (cases "createEmitter h")
    from step [of Create h] P ok ce have "P h1"
      by simp
    moreover from ok have "calls_ok A (cont m)"
      by simp
    moreover from r ce have "run_prog n beh (cont m) h1 = Some (h', c)"
      by simp
    ultimately show "P h'"
      using 4 [OF ce [symmetric]] B by blast
  qed
next
  case (5 n beh m event listener cont h)
  show ?case
  proof (intro allI impI)
    fix h' c
    assume B: "\<forall>fn v w. calls_ok A (beh fn v w)"
    assume P: "P h" and ok: "calls_ok A (CallOn m event listener cont)"
      and r: "run_prog (Suc n) beh (CallOn m event listener cont) h = Some (h', c)"
    obtain u h1 where ce: "on m event listener h = (u, h1)"
      by (cases "on m event listener h")
    from step [of "On m event listener" h] P ok ce have "P h1"
      by simp
    moreover from ok have "calls_ok A (cont u)"
      by simp
    moreover from r ce have "run_prog n beh (cont u) h1 = Some (h', c)"
      by simp
    ultimately show "P h'"
      using 5 [OF ce [symmetric]] B by blast
  qed
next
  case (6 n beh m event listener p h)
  show ?case
  proof (intro allI impI)
    fix h' c
    assume B: "\<forall>fn v w. calls_ok A (beh fn v w)"
    assume P: "P h" and ok: "calls_ok A (CallOff m event listener p)"
      and r: "run_prog (Suc n) beh (CallOff m event listener p) h = Some (h', c)"
    from step [of "Off m event listener" h] P ok have "P (off m event listener h)"
      by simp
    moreover from ok have "calls_ok A p"
      by simp
    moreover from r have "run_prog n beh p (off m event listener h) = Some (h', c)"
      by simp
    ultimately show "P h'"
      using 6 B by blast
  qed
next
  case (7 n beh u p h)
  show ?case
  proof (intro allI impI)
    fix h' c
    assume B: "\<forall>fn v w. calls_ok A (beh fn v w)"
    assume P: "P h" and ok: "calls_ok A (CallUnsub u p)"
      and r: "run_prog (Suc n) beh (CallUnsub u p) h = Some (h', c)"
    from step [of "Unsub u" h] P ok have "P (call_unsubscribe u h)"
      by simp
    moreover from ok have "calls_ok A p"
      by simp
    moreover from r have "run_prog n beh p (call_unsubscribe u h) = Some (h', c)"
      by simp
    ultimately show "P h'"
      using 7 B by blast
  qed
next
  case (8 n beh m event data w cont h)
  show ?case
  proof (intro allI impI)
    fix h' c
    assume B: "\<forall>fn v w. calls_ok A (beh fn v w)"
    assume P: "P h" and ok: "calls_ok A (CallEmit m event data w cont)"
      and r: "run_prog (Suc n) beh (CallEmit m event data w cont) h = Some (h', c)"
    from ok have cont: "calls_ok A (cont c')" for c'
      by simp
    show "P h'"
    proof (cases "Map_get m event h")
      case None
      with r have "run_prog n beh (cont (Normal w)) h = Some (h', c)"
        by simp
      with 8(1) [OF None] P cont B show ?thesis
        by blast
    next
      case (Some s)
      with r obtain h1 c1 where f: "snd (forEach n beh data s 0 h w) = Some (h1, c1)"
        and r1: "run_prog n beh (cont c1) h1 = Some (h', c)"
        by (auto split: option.splits)
      from f have "forEach n beh data s 0 h w = (fst (forEach n beh data s 0 h w), Some (h1, c1))"
        by (cases "forEach n beh data s 0 h w") simp
      with 8(2) [OF Some] P B have "P h1"
        by blast
      with 8(3) [OF Some f refl] cont r1 B show ?thesis
        by blast
    qed
  qed
next
  case (9 n beh data s i h w)
  show ?case
  proof (intro allI impI)
    fix calls h' c
    assume B: "\<forall>fn v w. calls_ok A (beh fn v w)"
    assume P: "P h" and a: "forEach n beh data s i h w = (calls, Some (h', c))"
    show "P h'"
    proof (cases "i < length (set_objs h s)")
      case False
      with a P show ?thesis by (simp add: forEach_end)
    next
      case True
      show ?thesis
      proof (cases "set_objs h s ! i")
        case None
        with True a have "forEach n beh data s (Suc i) h w = (calls, Some (h', c))"
          by (simp add: forEach_hole)
        with 9(1) [OF True None] P B show ?thesis
          by blast
      next
        case (Some fn)
        from a True Some obtain n' where n: "n = Suc n'"
          by (cases n) (auto simp: forEach_0)
        note eq = forEach_Suc [OF True Some, of n' beh data w]
        show ?thesis
        proof (cases "run_prog n' beh (beh fn data w) h")
          case None
          with a n eq show ?thesis by simp
        next
          case rp: (Some hc)
          obtain h1 c1 where hc: "hc = (h1, c1)"
            by (cases hc)
          from 9(2) [OF True Some n] P B rp hc have P1: "P h1"
            by blast
          show ?thesis
          proof (cases c1)
            case (Throw e w')
            with a n eq rp hc have "h' = h1"
              by simp
            with P1 show ?thesis by simp
          next
            case (Normal w')
            obtain calls' r' where rest: "forEach n' beh data s (Suc i) h1 w' = (calls', r')"
              by (cases "forEach n' beh data s (Suc i) h1 w'")
            with a n eq rp hc Normal have "r' = Some (h', c)"
              by simp
            with rest have rest': "forEach n' beh data s (Suc i) h1 w' = (calls', Some (h', c))"
              by simp
            from rp hc have rp0: "run_prog n' beh (beh fn data w) h = Some (h1, c1)"
              by simp
            from 9(3) [OF True Some n rp0 refl Normal] P1 rest' B show ?thesis
              by blast
          qed
        qed
      qed
    qed
  qed
qed

lemma invariant_run_prog:
  assumes "\<And>x h. A x \<Longrightarrow> P h \<Longrightarrow> P (apply_op x h)"
    and "\<And>fn v w. calls_ok A (beh fn v w)"
    and "P h" and "calls_ok A p" and "run_prog n beh p h = Some (h', c)"
  shows "P h'"
  using invariant(1) [of A P beh h p n, OF assms(1)] assms(2-5) by blast

lemma invariant_forEach:
  assumes "\<And>x h. A x \<Longrightarrow> P h \<Longrightarrow> P (apply_op x h)"
    and "\<And>fn v w. calls_ok A (beh fn v w)"
    and "P h" and "forEach n beh v s i h w = (calls, Some (h', c))"
  shows "P h'"
  using invariant(2) [of A P beh h n v s i w, OF assms(1)] assms(2-4) by blast

lemma invariant_emit:
  assumes "\<And>x h. A x \<Longrightarrow> P h \<Longrightarrow> P (apply_op x h)"
    and "\<And>fn v w. calls_ok A (beh fn v w)"
    and "P h" and "emit n beh m N v h w = (calls, Some (h', c))"
  shows "P h'"
proof (cases "Map_get m N h")
  case None
  with assms(3,4) show ?thesis by (simp add: emit_def)
next
  case (Some s)
  with assms(4) have "forEach n beh v s 0 h w = (calls, Some (h', c))"
    by (simp add: emit_def)
  with assms(1-3) show ?thesis by (rule invariant_forEach)
qed

lemma invariant_exec:
  assumes step: "\<And>x h. A x \<Longrightarrow> P h \<Longrightarrow> P (apply_op x h)"
    and beh: "\<And>fn v w. calls_ok A (beh fn v w)"
    and "P h" and "A x" and "exec n beh x (h, w) = Some (h', w')"
  shows "P h'"
proof (cases x)
  case (Emit m N v)
  with assms(5) obtain c where "snd (emit n beh m N v h w) = Some (h', c)"
    by (auto split: option.splits)
  then have "emit n beh m N v h w = (fst (emit n beh m N v h w), Some (h', c))"
    by (cases "emit n beh m N v h w") simp
  with step beh assms(3) show ?thesis by (rule invariant_emit)
next
  case Create
  with step [of x h] assms(3-5) show ?thesis by auto
next
  case (On m N f)
  with step [of x h] assms(3-5) show ?thesis by auto
next
  case (Off m N f)
  with step [of x h] assms(3-5) show ?thesis by auto
next
  case (Unsub u)
  with step [of x h] assms(3-5) show ?thesis by auto
qed

lemma invariant_run:
  assumes step: "\<And>x h. A x \<Longrightarrow> P h \<Longrightarrow> P (apply_op x h)"
    and beh: "\<And>fn v w. calls_ok A (beh fn v w)"
  shows "P h \<Longrightarrow> \<forall>x\<in>set ops. A x \<Longrightarrow> run n beh ops (h, w) = Some (h', w') \<Longrightarrow> P h'"
proof (induction ops arbitrary: h w)
  case Nil
  then show ?case by simp
next
  case (Cons x ops)
  from Cons.prems(3) obtain h1 w1 where e: "exec n beh x (h, w) = Some (h1, w1)"
    and r: "run n beh ops (h1, w1) = Some (h', w')"
    by (auto split: option.splits)
  from Cons.prems(2) have "A x"
    by simp
  with step beh Cons.prems(1) have "P h1"
    using e by (rule invariant_exec)
  with Cons.IH [of h1 w1] Cons.prems(2) r show ?case
    by simp
qed

text \<open>A publish calls only entries of the Set.\<close>

lemma forEach_never:
  assumes step: "\<And>x h. A x \<Longrightarrow> P h \<Longrightarrow> P (apply_op x h)"
    and absent: "\<And>h. P h \<Longrightarrow> Some f \<notin> set (set_objs h s)"
  shows "run_prog n beh p h = run_prog n beh p h"
    and "(\<forall>fn v w. calls_ok A (beh fn v w)) \<longrightarrow> P h \<longrightarrow> f \<notin> fst ` set (fst (forEach n beh v s' i h w)) \<or> s' \<noteq> s"
proof (induction n beh p h and n beh v s' i h w rule: run_prog_forEach.induct)
  case (9 n beh data s' i h w)
  show ?case
  proof (intro impI)
    assume B: "\<forall>fn v w. calls_ok A (beh fn v w)" and P: "P h"
    show "f \<notin> fst ` set (fst (forEach n beh data s' i h w)) \<or> s' \<noteq> s"
    proof (cases "s' = s")
      case False
      then show ?thesis by simp
    next
      case s: True
      show ?thesis
      proof (cases "i < length (set_objs h s')")
        case False
        then show ?thesis by (simp add: forEach_end)
      next
        case True
        show ?thesis
        proof (cases "set_objs h s' ! i")
          case None
          with 9(1) [OF True None] B P True show ?thesis
            by (simp add: forEach_hole)
        next
          case (Some fn)
          from True Some have "Some fn \<in> set (set_objs h s')"
            by (metis nth_mem)
          with absent [OF P] s have ne: "fn \<noteq> f"
            by auto
          show ?thesis
          proof (cases n)
            case 0
            with True Some show ?thesis by (simp add: forEach_0)
          next
            case (Suc n')
            note eq = forEach_Suc [OF True Some, of n' beh data w]
            show ?thesis
            proof (cases "run_prog n' beh (beh fn data w) h")
              case None
              with eq Suc ne show ?thesis by simp
            next
              case rp: (Some hc)
              obtain h1 c1 where hc: "hc = (h1, c1)"
                by (cases hc)
              show ?thesis
              proof (cases c1)
                case (Throw e w')
                with eq Suc ne rp hc show ?thesis by simp
              next
                case (Normal w')
                from rp hc have rp0: "run_prog n' beh (beh fn data w) h = Some (h1, c1)"
                  by simp
                have "P h1"
                  using step _ P _ rp0 by (rule invariant_run_prog) (use B in auto)
                with 9(3) [OF True Some Suc rp0 refl Normal] B s
                have "f \<notin> fst ` set (fst (forEach n' beh data s' (Suc i) h1 w'))"
                  by simp
                with eq Suc ne rp hc Normal show ?thesis
                  by (simp split: prod.splits)
              qed
            qed
          qed
        qed
      qed
    qed
  qed
qed simp_all

subsection \<open>Publishes over listeners that leave the registry alone\<close>




subsection \<open>No listener, and the closure after a sequence of operations\<close>

lemma calls_ok_True: "calls_ok (\<lambda>x. True) p"
  by (induction p) simp_all

lemma forEach_no_entries:
  "entries (drop i (set_objs h s)) = [] \<Longrightarrow> forEach n beh v s i h w = ([], Some (h, Normal w))"
proof (induction "length (set_objs h s) - i" arbitrary: i)
  case 0
  then show ?case by (simp add: forEach_end)
next
  case (Suc k)
  then have lt: "i < length (set_objs h s)" and k: "k = length (set_objs h s) - Suc i"
    by simp_all
  have dr: "drop i (set_objs h s) = set_objs h s ! i # drop (Suc i) (set_objs h s)"
    using lt by (simp add: Cons_nth_drop_Suc)
  show ?case
  proof (cases "set_objs h s ! i")
    case None
    with Suc.prems dr have "entries (drop (Suc i) (set_objs h s)) = []"
      by simp
    from Suc(1) [OF k this] lt None show ?thesis
      by (simp add: forEach_hole)
  next
    case (Some fn)
    with Suc.prems dr show ?thesis by simp
  qed
qed

lemma emit_no_listeners:
  "listeners h m N = [] \<Longrightarrow> emit n beh m N v h w = ([], Some (h, Normal w))"
  by (cases "Map_get m N h") (simp_all add: emit_def listeners_def forEach_no_entries)

lemma off_absent: "f \<notin> set (listeners h m N) \<Longrightarrow> off m N f h = h"
  by (cases "Map_get m N h") (simp_all add: off_def listeners_def Set_delete_absent del: set_entries)

lemma binding_kept:
  assumes "m < map_count h \<and> Map_get m N h = Some s"
  shows "m < map_count (apply_op x h) \<and> Map_get m N (apply_op x h) = Some s"
  using assms by (cases x) (simp_all add: Map_get_createEmitter Map_get_on)

lemma binding_run:
  assumes "m < map_count h" and "Map_get m N h = Some s" and "run n beh ops (h, w) = Some (h', w')"
  shows "m < map_count h' \<and> Map_get m N h' = Some s"
proof -
  have step: "\<And>x h. True \<Longrightarrow> m < map_count h \<and> Map_get m N h = Some s \<Longrightarrow>
      m < map_count (apply_op x h) \<and> Map_get m N (apply_op x h) = Some s"
    by (rule binding_kept)
  show ?thesis
    by (rule invariant_run [where A = "\<lambda>x. True" and P = "\<lambda>h. m < map_count h \<and> Map_get m N h = Some s",
          OF step calls_ok_True _ _ assms(3)]) (simp_all add: assms)
qed

lemma heap_ok_apply_op: "heap_ok h \<Longrightarrow> heap_ok (apply_op x h)"
  by (cases x) (simp_all add: heap_ok_createEmitter heap_ok_on heap_ok_off heap_ok_call_unsubscribe)

lemma heap_ok_run:
  assumes "heap_ok h" and "run n beh ops (h, w) = Some (h', w')"
  shows "heap_ok h'"
proof -
  have step: "\<And>x h. True \<Longrightarrow> heap_ok h \<Longrightarrow> heap_ok (apply_op x h)"
    by (rule heap_ok_apply_op)
  show ?thesis
    by (rule invariant_run [where A = "\<lambda>x. True" and P = heap_ok,
          OF step calls_ok_True _ _ assms(2)]) (simp_all add: assms)
qed

lemma closure_removes:
  assumes s: "Map_get m N h = Some s"
  shows "listeners (call_unsubscribe (Closure s f) h) m N = removeAll f (listeners h m N)"
    and "call_unsubscribe (Closure s f) h = h \<longleftrightarrow> f \<notin> set (listeners h m N)"
    and "heap_ok h \<Longrightarrow> (m', k') \<noteq> (m, N) \<Longrightarrow>
           listeners (call_unsubscribe (Closure s f) h) m' k' = listeners h m' k'"
proof -
  show "listeners (call_unsubscribe (Closure s f) h) m N = removeAll f (listeners h m N)"
    using s by (simp add: listeners_def)
  show "call_unsubscribe (Closure s f) h = h \<longleftrightarrow> f \<notin> set (listeners h m N)"
    using s Set_delete_absent [of f h s] Set_delete_present [of f h s]
    by (auto simp: listeners_def simp del: set_entries)
  show "listeners (call_unsubscribe (Closure s f) h) m' k' = listeners h m' k'"
    if "heap_ok h" "(m', k') \<noteq> (m, N)"
    using listeners_Set_delete_other [OF that(1) s that(2)] by simp
qed

subsection \<open>Names and emitters apart\<close>

lemma map_count_apply_op: "m < map_count h \<Longrightarrow> m < map_count (apply_op x h)"
  by (cases x) simp_all

lemma not_registered_kept:
  assumes "x \<noteq> On m B f"
    and "heap_ok h \<and> m < map_count h \<and> f \<notin> set (listeners h m B)"
  shows "heap_ok (apply_op x h) \<and> m < map_count (apply_op x h) \<and> f \<notin> set (listeners (apply_op x h) m B)"
proof -
  from assms(2) have ok: "heap_ok h" and m: "m < map_count h" and f: "f \<notin> set (listeners h m B)"
    by simp_all
  have "f \<notin> set (listeners (apply_op x h) m B)"
  proof (cases x)
    case Create
    with m f show ?thesis by (simp add: listeners_createEmitter)
  next
    case (On m' k g)
    show ?thesis
    proof (cases "(m, B) = (m', k)")
      case True
      with On assms(1) have "g \<noteq> f" by auto
      with True On f show ?thesis
        by (simp add: listeners_on_same del: set_entries)
    next
      case False
      with On f listeners_on_other [OF ok, of m B m' k g] show ?thesis
        by simp
    qed
  next
    case (Off m' k g)
    show ?thesis
    proof (cases "(m, B) = (m', k)")
      case True
      with Off f show ?thesis by (simp add: listeners_off_same)
    next
      case False
      with Off f listeners_off_other [OF ok, of m B m' k g] show ?thesis
        by simp
    qed
  next
    case (Emit m' k v)
    with f show ?thesis by simp
  next
    case (Unsub u)
    with f listeners_call_unsubscribe [of u h m B] show ?thesis
      by auto
  qed
  with heap_ok_apply_op [OF ok, of x] map_count_apply_op [OF m, of x] show ?thesis
    by simp
qed

lemma not_registered_run:
  assumes "heap_ok h" and "m < map_count h" and "f \<notin> set (listeners h m B)"
    and "On m B f \<notin> set ops"
    and "\<And>fn v w. calls_ok (\<lambda>x. x \<noteq> On m B f) (beh fn v w)"
    and "run n beh ops (h, w) = Some (h', w')"
  shows "heap_ok h' \<and> m < map_count h' \<and> f \<notin> set (listeners h' m B)"
proof -
  have step: "\<And>x h. x \<noteq> On m B f \<Longrightarrow> heap_ok h \<and> m < map_count h \<and> f \<notin> set (listeners h m B) \<Longrightarrow>
      heap_ok (apply_op x h) \<and> m < map_count (apply_op x h) \<and> f \<notin> set (listeners (apply_op x h) m B)"
    by (rule not_registered_kept)
  show ?thesis
    by (rule invariant_run [where A = "\<lambda>x. x \<noteq> On m B f"
          and P = "\<lambda>h. heap_ok h \<and> m < map_count h \<and> f \<notin> set (listeners h m B)",
          OF step assms(5) _ _ assms(6)]) (use assms(1-4) in auto)
qed

lemma emit_never:
  assumes "heap_ok h" and "m < map_count h" and "f \<notin> set (listeners h m B)"
    and beh: "\<And>fn v w. calls_ok (\<lambda>x. x \<noteq> On m B f) (beh fn v w)"
  shows "f \<notin> fst ` set (fst (emit n beh m B v h w))"
proof (cases "Map_get m B h")
  case None
  then show ?thesis by (simp add: emit_def)
next
  case (Some s)
  let ?P = "\<lambda>h. (heap_ok h \<and> m < map_count h \<and> f \<notin> set (listeners h m B)) \<and>
                 (m < map_count h \<and> Map_get m B h = Some s)"
  have step: "?P (apply_op x h)" if "x \<noteq> On m B f" "?P h" for x :: "(_, 'x) op" and h
    using not_registered_kept [OF that(1), of h] binding_kept [of m h B s x] that(2) by simp
  have absent: "\<And>h. ?P h \<Longrightarrow> Some f \<notin> set (set_objs h s)"
    by (simp add: listeners_def)
  have "?P h"
    using assms(1-3) Some by simp
  with forEach_never(2) [where A = "\<lambda>x. x \<noteq> On m B f" and P = ?P and s = s and f = f
      and beh = beh and h = h and s' = s and n = n and v = v and i = 0 and w = w, OF step absent] beh
  have "f \<notin> fst ` set (fst (forEach n beh v s 0 h w))"
    by blast
  with Some show ?thesis
    by (simp add: emit_def)
qed

lemma untouched_kept:
  assumes A: "\<not> registers_on h0 m2 x"
    and P: "heap_ok h \<and> map_objs h m2 = map_objs h0 m2 \<and> m2 < map_count h \<and>
            (\<forall>k s. Map_get m2 k h0 = Some s \<longrightarrow> set_objs h s = set_objs h0 s)"
  shows "heap_ok (apply_op x h) \<and> map_objs (apply_op x h) m2 = map_objs h0 m2 \<and> m2 < map_count (apply_op x h) \<and>
            (\<forall>k s. Map_get m2 k h0 = Some s \<longrightarrow> set_objs (apply_op x h) s = set_objs h0 s)"
proof -
  from P have ok: "heap_ok h" and mo: "map_objs h m2 = map_objs h0 m2" and m2: "m2 < map_count h"
    and so: "\<And>k s. Map_get m2 k h0 = Some s \<Longrightarrow> set_objs h s = set_objs h0 s"
    by simp_all
  have same: "Map_get m2 k h = Map_get m2 k h0" for k
    using mo by (simp add: Map_get_def)
  have rest: "map_objs (apply_op x h) m2 = map_objs h0 m2 \<and>
      (\<forall>k s. Map_get m2 k h0 = Some s \<longrightarrow> set_objs (apply_op x h) s = set_objs h0 s)"
  proof (cases x)
    case Create
    with mo m2 so show ?thesis
      by (simp add: createEmitter_def new_Map_def)
  next
    case (On m' k' g)
    with A have ne: "m' \<noteq> m2" by simp
    show ?thesis
    proof (cases "Map_get m' k' h")
      case None
      have "s \<noteq> set_count h" if "Map_get m2 k h0 = Some s" for k s
        using heap_okD1 [OF ok, of m2 k s] that same [of k] by simp
      with On None ne mo so show ?thesis
        by (simp add: on_None Map_set_def Set_add_def new_Set_def)
    next
      case (Some s')
      have "s \<noteq> s'" if "Map_get m2 k h0 = Some s" for k s
        using heap_okD2 [OF ok Some, of m2 k] that same [of k] ne by auto
      with On Some mo so show ?thesis
        by (simp add: on_Some Set_add_def)
    qed
  next
    case (Off m' k' g)
    with A have ne: "m' \<noteq> m2" by simp
    show ?thesis
    proof (cases "Map_get m' k' h")
      case None
      with Off mo so show ?thesis by (simp add: off_def)
    next
      case (Some s')
      have "s \<noteq> s'" if "Map_get m2 k h0 = Some s" for k s
        using heap_okD2 [OF ok Some, of m2 k] that same [of k] ne by auto
      with Off Some mo so show ?thesis
        by (simp add: off_def Set_delete_def)
    qed
  next
    case (Emit m' k' v)
    with mo so show ?thesis by simp
  next
    case (Unsub u)
    obtain s' g where u: "u = Closure s' g" by (cases u)
    with A Unsub have "s \<noteq> s'" if "Map_get m2 k h0 = Some s" for k s
      using that by auto
    with Unsub u mo so show ?thesis
      by (simp add: Set_delete_def)
  qed
  with heap_ok_apply_op [OF ok, of x] map_count_apply_op [OF m2, of x] show ?thesis
    by simp
qed

lemma emit_untouched:
  assumes "heap_ok h" and "m2 < map_count h"
    and beh: "\<And>fn v w. calls_ok (\<lambda>x. \<not> registers_on h m2 x) (beh fn v w)"
    and "emit n beh m1 k v h w = (calls, Some (h', c))"
  shows "listeners h' m2 = listeners h m2"
proof -
  let ?P = "\<lambda>h'. heap_ok h' \<and> map_objs h' m2 = map_objs h m2 \<and> m2 < map_count h' \<and>
            (\<forall>k s. Map_get m2 k h = Some s \<longrightarrow> set_objs h' s = set_objs h s)"
  have step: "\<And>x h'. \<not> registers_on h m2 x \<Longrightarrow> ?P h' \<Longrightarrow> ?P (apply_op x h')"
    by (rule untouched_kept)
  have "?P h"
    using assms(1,2) by simp
  with step beh have P: "?P h'"
    using assms(4) by (rule invariant_emit)
  show ?thesis
  proof
    fix k
    show "listeners h' m2 k = listeners h m2 k"
      using P by (cases "Map_get m2 k h") (simp_all add: listeners_def Map_get_def)
  qed
qed

subsection \<open>One listener among the calls of a publish\<close>









subsection \<open>The example heaps and listeners\<close>

lemma heap_ok_fresh: "heap_ok fresh"
  unfolding fresh_def by (intro heap_ok_createEmitter heap_ok_heap0)

lemma heap_ok_two_emitters: "heap_ok two_emitters"
  unfolding two_emitters_def by (intro heap_ok_on heap_ok_createEmitter heap_ok_fresh)


lemma the_Some_pair: "r \<noteq> None \<Longrightarrow> r = Some (fst (the r), snd (the r))"
  by (cases r) simp_all






lemmas run_defs =
  emit_def on_def off_def createEmitter_def new_Map_def new_Set_def Map_get_def Map_set_def
  Set_add_def Set_delete_def listeners_def heap0_def fresh_def two_listeners_def
  three_listeners_def registered_def registered_twice_def unsubscribed_def resubscribed_def
  two_emitters_def recorder_def thrower_def remover_def remove_and_throw_def resubscriber_def
  between_def between_registering_def register_and_remove_def elsewhere_def forEach.simps
  eval_nat_numeral

section \<open>The claims\<close>

text \<open>
  C2. For every emitter \<open>m\<close> and registration \<open>on m N f\<close> with the closure \<open>u\<close> it
  returns, whatever operations \<open>ops1\<close> come before the first invocation of \<open>u\<close> and
  whatever operations \<open>ops2\<close> come between the first and the second, with listeners that
  may themselves call the interface: each invocation of \<open>u\<close> removes \<open>f\<close> from the
  listeners of \<open>N\<close> as they are at that moment, whichever registration put it there, and
  (in a well-formed heap) leaves the listeners of every other name and emitter as they
  were; invoked again at once it changes nothing; and the second invocation leaves the heap
  unchanged if and only if \<open>f\<close> is not registered under \<open>N\<close> at that moment.
\<close>

theorem unsubscribe_twice:
  assumes "m < map_count h"
    and "on m N f h = (u, h1)"
    and "run n beh ops1 (h1, w) = Some (h2, w2)"
    and "run n' beh ops2 (call_unsubscribe u h2, w2) = Some (h3, w3)"
  shows "listeners (call_unsubscribe u h2) m N = removeAll f (listeners h2 m N) \<and>
         call_unsubscribe u (call_unsubscribe u h2) = call_unsubscribe u h2 \<and>
         (call_unsubscribe u h3 = h3 \<longleftrightarrow> f \<notin> set (listeners h3 m N)) \<and>
         listeners (call_unsubscribe u h3) m N = removeAll f (listeners h3 m N) \<and>
         (heap_ok h \<longrightarrow>
            (\<forall>m' k'. (m', k') \<noteq> (m, N) \<longrightarrow>
               listeners (call_unsubscribe u h2) m' k' = listeners h2 m' k' \<and>
               listeners (call_unsubscribe u h3) m' k' = listeners h3 m' k'))"
proof -
  from on_closure [OF assms(2)] obtain s where u: "u = Closure s f" and s1: "Map_get m N h1 = Some s"
    by blast
  have "map_count h1 = map_count h"
    using map_count_on [of m N f h] assms(2) by simp
  with assms(1) have m1: "m < map_count h1"
    by simp
  from binding_run [OF m1 s1 assms(3)] have m2: "m < map_count h2" and s2: "Map_get m N h2 = Some s"
    by simp_all
  let ?h2' = "call_unsubscribe u h2"
  from m2 s2 have "m < map_count ?h2'" "Map_get m N ?h2' = Some s"
    by simp_all
  from binding_run [OF this assms(4)] have s3: "Map_get m N h3 = Some s"
    by simp
  have first: "listeners ?h2' m N = removeAll f (listeners h2 m N)"
    unfolding u by (rule closure_removes(1) [OF s2])
  have "f \<notin> set (listeners ?h2' m N)"
    unfolding first by simp
  moreover have "Map_get m N ?h2' = Some s"
    using s2 by simp
  ultimately have again: "call_unsubscribe u ?h2' = ?h2'"
    using closure_removes(2) [of m N ?h2' s f] u by simp
  have iff: "call_unsubscribe u h3 = h3 \<longleftrightarrow> f \<notin> set (listeners h3 m N)"
    unfolding u by (rule closure_removes(2) [OF s3])
  have later: "listeners (call_unsubscribe u h3) m N = removeAll f (listeners h3 m N)"
    unfolding u by (rule closure_removes(1) [OF s3])
  have others: "listeners ?h2' m' k' = listeners h2 m' k' \<and>
                listeners (call_unsubscribe u h3) m' k' = listeners h3 m' k'"
    if ok: "heap_ok h" and ne: "(m', k') \<noteq> (m, N)" for m' k'
  proof -
    have "heap_ok h1"
      using heap_ok_on [OF ok, of m N f] assms(2) by simp
    then have ok2: "heap_ok h2"
      using assms(3) by (rule heap_ok_run)
    then have "heap_ok ?h2'"
      by (rule heap_ok_call_unsubscribe)
    then have ok3: "heap_ok h3"
      using assms(4) by (rule heap_ok_run)
    from closure_removes(3) [OF s2 ok2 ne] closure_removes(3) [OF s3 ok3 ne] u show ?thesis
      by simp
  qed
  from first again iff later others show ?thesis
    by blast
qed
theorem unsubscribe_twice_witness:
  "listeners unsubscribed 0 ''message'' = [] \<and>
   call_unsubscribe (fst registered) unsubscribed = unsubscribed \<and>
   map_option snd (run 3 recorder register_and_remove (unsubscribed, [])) = Some [(7, ''hello'')] \<and>
   listeners (fst (the (run 3 recorder register_and_remove (unsubscribed, [])))) 0 ''message'' = [] \<and>
   call_unsubscribe (fst registered) (fst (the (run 3 recorder register_and_remove (unsubscribed, []))))
     = fst (the (run 3 recorder register_and_remove (unsubscribed, [])))"
proof -
  let ?r = "run 3 recorder register_and_remove (unsubscribed, [])"
  have a: "0 < map_count fresh"
    by (simp add: run_defs)
  have b: "on 0 ''message'' 7 fresh = (fst registered, snd registered)"
    by (simp add: registered_def)
  have c: "run 0 recorder [] (snd registered, []) = Some (snd registered, [])"
    by simp
  have l: "map_option snd ?r = Some [(7, ''hello'')]"
    by (simp add: run_defs)
  then have "?r \<noteq> None"
    by auto
  then have "?r = Some (fst (the ?r), snd (the ?r))"
    by (rule the_Some_pair)
  then have d: "run 3 recorder register_and_remove (call_unsubscribe (fst registered) (snd registered), [])
      = Some (fst (the ?r), snd (the ?r))"
    by (simp add: unsubscribed_def)
  have e: "listeners (snd registered) 0 ''message'' = [7]"
    by (simp add: run_defs)
  have f: "listeners (fst (the ?r)) 0 ''message'' = []"
    by (simp add: run_defs)
  from unsubscribe_twice [OF a b c d] e f l show ?thesis
    by (simp add: unsubscribed_def)
qed
text \<open>
  C2 as stated fails when the operations in between register the listener again and leave
  it registered: the closure of the first registration of listener 7 then removes the new
  registration.
\<close>

theorem unsubscribe_again_counterexample:
  "listeners (snd registered) 0 ''message'' = [7] \<and>
   listeners unsubscribed 0 ''message'' = [] \<and>
   listeners (snd resubscribed) 0 ''message'' = [7] \<and>
   listeners (call_unsubscribe (fst registered) (snd resubscribed)) 0 ''message'' = [] \<and>
   call_unsubscribe (fst registered) (snd resubscribed) \<noteq> snd resubscribed"
proof -
  have a: "listeners (snd resubscribed) 0 ''message'' = [7]"
    by (simp add: run_defs)
  have b: "listeners (call_unsubscribe (fst registered) (snd resubscribed)) 0 ''message'' = []"
    by (simp add: run_defs)
  have c: "listeners (snd registered) 0 ''message'' = [7]"
    by (simp add: run_defs)
  have d: "listeners unsubscribed 0 ''message'' = []"
    by (simp add: run_defs)
  from a b have "call_unsubscribe (fst registered) (snd resubscribed) \<noteq> snd resubscribed"
    by auto
  with a b c d show ?thesis by simp
qed
text \<open>
  C7. For every emitter, a publish under a name that has no listener (no \<^verbatim>\<open>Set\<close>, or a
  \<^verbatim>\<open>Set\<close> without elements) returns, whatever the fuel, with no call and the heap
  unchanged; and \<^verbatim>\<open>off\<close> of a listener not registered under the name (no \<^verbatim>\<open>Set\<close>, or not
  in the \<^verbatim>\<open>Set\<close>) leaves the heap unchanged. Neither has a path that throws.
\<close>

theorem noop_safety:
  "(listeners h m N = [] \<longrightarrow> emit n beh m N v h w = ([], Some (h, Normal w))) \<and>
   (f \<notin> set (listeners h m N) \<longrightarrow> off m N f h = h)"
  by (simp add: emit_no_listeners off_absent)
theorem noop_safety_witness:
  "emit 0 recorder 0 ''click'' ''hello'' fresh [] = ([], Some (fresh, Normal [])) \<and>
   off 0 ''click'' 7 fresh = fresh \<and>
   Map_get 0 ''message'' unsubscribed = Some 0 \<and>
   emit 0 recorder 0 ''message'' ''hello'' unsubscribed [] = ([], Some (unsubscribed, Normal [])) \<and>
   off 0 ''message'' 7 unsubscribed = unsubscribed"
proof -
  have a: "listeners fresh 0 ''click'' = []"
    by (simp add: run_defs)
  have b: "listeners unsubscribed 0 ''message'' = []"
    by (simp add: run_defs)
  have c: "Map_get 0 ''message'' unsubscribed = Some 0"
    by (simp add: run_defs)
  from noop_safety [of fresh 0 "''click''" 0 recorder "''hello''" "[]" 7]
    noop_safety [of unsubscribed 0 "''message''" 0 recorder "''hello''" "[]" 7] a b c
  show ?thesis
    by simp
qed
text \<open>
  C8. For every emitter \<open>m\<close> of a well-formed heap and names \<open>A \<noteq> B\<close>: a listener \<open>f\<close>
  registered for \<open>A\<close> and not for \<open>B\<close> is, after any sequence of operations in which neither
  the caller nor a listener's program registers \<open>f\<close> for \<open>B\<close>, not among the listeners of
  \<open>B\<close>, and no publish under \<open>B\<close> calls it, however the publish ends and whatever the fuel.
\<close>

theorem name_isolation:
  assumes "heap_ok h"
    and "m < map_count h"
    and "A \<noteq> B"
    and "f \<notin> set (listeners h m B)"
    and "on m A f h = (u, h1)"
    and "On m B f \<notin> set ops"
    and "\<forall>fn v w. calls_ok (\<lambda>x. x \<noteq> On m B f) (beh fn v w)"
    and "run n beh ops (h1, w) = Some (h2, w2)"
  shows "f \<in> set (listeners h1 m A) \<and> f \<notin> set (listeners h2 m B) \<and>
         f \<notin> fst ` set (fst (emit k beh m B v h2 w2))"
proof -
  have h1: "h1 = snd (on m A f h)"
    using assms(5) by simp
  have in_A: "f \<in> set (listeners h1 m A)"
    unfolding h1 by (simp add: listeners_on_same del: set_entries)
  have ok1: "heap_ok h1"
    unfolding h1 using assms(1) by (rule heap_ok_on)
  have m1: "m < map_count h1"
    unfolding h1 using assms(2) by simp
  have "listeners h1 m B = listeners h m B"
    unfolding h1 using assms(3) by (intro listeners_on_other [OF assms(1)]) simp
  with assms(4) have f1: "f \<notin> set (listeners h1 m B)"
    by simp
  have beh: "\<And>fn v w. calls_ok (\<lambda>x. x \<noteq> On m B f) (beh fn v w)"
    using assms(7) by simp
  from not_registered_run [OF ok1 m1 f1 assms(6) beh assms(8)]
  have P2: "heap_ok h2" "m < map_count h2" "f \<notin> set (listeners h2 m B)"
    by simp_all
  from emit_never [OF P2 beh] in_A P2(3) show ?thesis
    by simp
qed
theorem name_isolation_witness:
  "7 \<in> set (listeners (snd (on 0 ''click'' 7 fresh)) 0 ''click'') \<and>
   map_option snd (run 3 (remover 5 7) elsewhere (snd (on 0 ''click'' 7 fresh), []))
     = Some [(7, ''x''), (5, ''y'')] \<and>
   7 \<notin> set (listeners (fst (the (run 3 (remover 5 7) elsewhere (snd (on 0 ''click'' 7 fresh), []))))
                0 ''message'') \<and>
   7 \<notin> fst ` set (fst (emit 3 (remover 5 7) 0 ''message'' ''hello''
       (fst (the (run 3 (remover 5 7) elsewhere (snd (on 0 ''click'' 7 fresh), []))))
       (snd (the (run 3 (remover 5 7) elsewhere (snd (on 0 ''click'' 7 fresh), []))))))"
proof -
  let ?r = "run 3 (remover 5 7) elsewhere (snd (on 0 ''click'' 7 fresh), [])"
  have a: "0 < map_count fresh"
    by (simp add: run_defs)
  have ne: "''click'' \<noteq> ''message''"
    by simp
  have b: "7 \<notin> set (listeners fresh 0 ''message'')"
    by (simp add: run_defs)
  have c: "on 0 ''click'' 7 fresh = (fst (on 0 ''click'' 7 fresh), snd (on 0 ''click'' 7 fresh))"
    by simp
  have d: "On 0 ''message'' 7 \<notin> set elsewhere"
    by (simp add: elsewhere_def)
  have p: "\<forall>fn v w. calls_ok (\<lambda>x. x \<noteq> On 0 ''message'' 7) (remover 5 7 fn v w)"
    by (simp add: remover_def)
  have l: "map_option snd ?r = Some [(7, ''x''), (5, ''y'')]"
    by (simp add: run_defs)
  then have "?r \<noteq> None"
    by auto
  then have e: "?r = Some (fst (the ?r), snd (the ?r))"
    by (rule the_Some_pair)
  from name_isolation [OF heap_ok_fresh a ne b c d p e, of 3 "''hello''"] l show ?thesis
    by simp
qed
text \<open>
  C9. \<open>createEmitter\<close> returns a reference that no emitter has yet, so two emitters made
  by separate calls are two references \<open>m1 \<noteq> m2\<close>. In a well-formed heap, \<^verbatim>\<open>on\<close>, \<^verbatim>\<open>off\<close>
  and a closure of \<open>m1\<close> leave the listeners of every name of \<open>m2\<close> as they were; a publish
  on \<open>m1\<close> never calls a listener \<open>g\<close> that is not registered on \<open>m1\<close> under the published
  name and that no listener's program registers there, however the publish ends; a publish
  on \<open>m1\<close> that comes back leaves the listeners of every name of \<open>m2\<close> as they were, unless a
  listener's program itself registers or removes a listener of \<open>m2\<close>; and creating a further
  emitter gives a third reference and leaves the listeners of \<open>m2\<close> as they were.
\<close>

theorem instance_isolation:
  assumes "heap_ok h"
    and "m1 < map_count h"
    and "m2 < map_count h"
    and "m1 \<noteq> m2"
  shows "listeners (snd (on m1 k f h)) m2 = listeners h m2 \<and>
         listeners (off m1 k f h) m2 = listeners h m2 \<and>
         (\<forall>s. Map_get m1 k h = Some s \<longrightarrow>
            listeners (call_unsubscribe (Closure s f) h) m2 = listeners h m2) \<and>
         (\<forall>g. g \<notin> set (listeners h m1 k) \<and> (\<forall>fn v w. calls_ok (\<lambda>x. x \<noteq> On m1 k g) (beh fn v w)) \<longrightarrow>
            g \<notin> fst ` set (fst (emit n beh m1 k v h w))) \<and>
         ((\<forall>fn v w. calls_ok (\<lambda>x. \<not> registers_on h m2 x) (beh fn v w)) \<longrightarrow>
            (\<forall>calls h' c. emit n beh m1 k v h w = (calls, Some (h', c)) \<longrightarrow>
               listeners h' m2 = listeners h m2)) \<and>
         fst (createEmitter h) \<noteq> m1 \<and> fst (createEmitter h) \<noteq> m2 \<and>
         listeners (snd (createEmitter h)) m2 = listeners h m2"
proof -
  have a: "listeners (snd (on m1 k f h)) m2 = listeners h m2"
  proof
    fix k'
    show "listeners (snd (on m1 k f h)) m2 k' = listeners h m2 k'"
      using assms(4) by (intro listeners_on_other [OF assms(1)]) simp
  qed
  have b: "listeners (off m1 k f h) m2 = listeners h m2"
  proof
    fix k'
    show "listeners (off m1 k f h) m2 k' = listeners h m2 k'"
      using assms(4) by (intro listeners_off_other [OF assms(1)]) simp
  qed
  have c: "listeners (call_unsubscribe (Closure s f) h) m2 = listeners h m2"
    if "Map_get m1 k h = Some s" for s
  proof
    fix k'
    show "listeners (call_unsubscribe (Closure s f) h) m2 k' = listeners h m2 k'"
      using closure_removes(3) [OF that assms(1), of m2 k' f] assms(4) by simp
  qed
  have d: "g \<notin> fst ` set (fst (emit n beh m1 k v h w))"
    if "g \<notin> set (listeners h m1 k)" "\<forall>fn v w. calls_ok (\<lambda>x. x \<noteq> On m1 k g) (beh fn v w)" for g
    by (rule emit_never [OF assms(1,2) that(1)]) (use that(2) in simp)
  have e: "listeners h' m2 = listeners h m2"
    if "\<forall>fn v w. calls_ok (\<lambda>x. \<not> registers_on h m2 x) (beh fn v w)"
      "emit n beh m1 k v h w = (calls, Some (h', c))" for calls h' c
    by (rule emit_untouched [OF assms(1,3) _ that(2)]) (use that(1) in simp)
  have g: "fst (createEmitter h) \<noteq> m1 \<and> fst (createEmitter h) \<noteq> m2"
    using assms(2,3) by (simp add: createEmitter_def new_Map_def)
  have i: "listeners (snd (createEmitter h)) m2 = listeners h m2"
  proof
    fix k'
    show "listeners (snd (createEmitter h)) m2 k' = listeners h m2 k'"
      using assms(3) by (rule listeners_createEmitter)
  qed
  from c have c': "\<forall>s. Map_get m1 k h = Some s \<longrightarrow>
      listeners (call_unsubscribe (Closure s f) h) m2 = listeners h m2"
    by simp
  from d have d': "\<forall>g. g \<notin> set (listeners h m1 k) \<and> (\<forall>fn v w. calls_ok (\<lambda>x. x \<noteq> On m1 k g) (beh fn v w)) \<longrightarrow>
      g \<notin> fst ` set (fst (emit n beh m1 k v h w))"
    by simp
  have e': "(\<forall>fn v w. calls_ok (\<lambda>x. \<not> registers_on h m2 x) (beh fn v w)) \<longrightarrow>
      (\<forall>calls h' c. emit n beh m1 k v h w = (calls, Some (h', c)) \<longrightarrow> listeners h' m2 = listeners h m2)"
    by (intro impI allI) (rule e)
  from g have g1: "fst (createEmitter h) \<noteq> m1" and g2: "fst (createEmitter h) \<noteq> m2"
    by simp_all
  show ?thesis
    by (intro conjI) (fact a b c' d' e' g1 g2 i)+
qed
theorem instance_isolation_witness:
  "listeners (snd (on 0 ''message'' 9 two_emitters)) 1 = listeners two_emitters 1 \<and>
   listeners (off 0 ''message'' 5 two_emitters) 1 = listeners two_emitters 1 \<and>
   listeners (call_unsubscribe (Closure 0 5) two_emitters) 1 = listeners two_emitters 1 \<and>
   listeners two_emitters 1 ''message'' = [7] \<and>
   7 \<notin> fst ` set (fst (emit 3 (remover 5 7) 0 ''message'' ''only-0'' two_emitters [])) \<and>
   fst (emit 3 (remover 5 7) 0 ''message'' ''only-0'' two_emitters []) = [(5, ''only-0'')] \<and>
   listeners (fst (the (snd (emit 3 (remover 5 7) 0 ''message'' ''only-0'' two_emitters [])))) 1
     = listeners two_emitters 1 \<and>
   fst (createEmitter two_emitters) = 2"
proof -
  let ?e = "emit 3 (remover 5 7) 0 ''message'' ''only-0'' two_emitters []"
  have a: "0 < map_count two_emitters" "1 < map_count two_emitters"
    by (simp_all add: run_defs)
  have b: "(0::nat) \<noteq> 1"
    by simp
  have c: "Map_get 0 ''message'' two_emitters = Some 0"
    by (simp add: run_defs)
  have d: "7 \<notin> set (listeners two_emitters 0 ''message'')"
    by (simp add: run_defs)
  have l: "listeners two_emitters 1 ''message'' = [7]"
    by (simp add: run_defs)
  have f: "fst ?e = [(5, ''only-0'')]"
    by (simp add: run_defs)
  have g: "fst (createEmitter two_emitters) = 2"
    by (simp add: run_defs)
  have p: "\<forall>fn v w. calls_ok (\<lambda>x. x \<noteq> On 0 ''message'' 7) (remover 5 7 fn v w)"
    by (simp add: remover_def)
  have p': "\<forall>fn v w. calls_ok (\<lambda>x. \<not> registers_on two_emitters 1 x) (remover 5 7 fn v w)"
    by (simp add: remover_def)
  have "map_option snd (snd ?e) = Some (Normal [(5, ''only-0'')])"
    by (simp add: run_defs)
  then have "snd ?e \<noteq> None"
    by auto
  then have "snd ?e = Some (fst (the (snd ?e)), snd (the (snd ?e)))"
    by (rule the_Some_pair)
  then have r: "?e = (fst ?e, Some (fst (the (snd ?e)), snd (the (snd ?e))))"
    by (metis prod.collapse)
  from instance_isolation [OF heap_ok_two_emitters a b, where beh = "remover 5 7" and k = "''message''"
      and v = "''only-0''" and w = "[]" and n = 3 and f = 9]
  have i9: "listeners (snd (on 0 ''message'' 9 two_emitters)) 1 = listeners two_emitters 1"
    by blast
  from instance_isolation [OF heap_ok_two_emitters a b, where beh = "remover 5 7" and k = "''message''"
      and v = "''only-0''" and w = "[]" and n = 3 and f = 5]
  have i5: "listeners (off 0 ''message'' 5 two_emitters) 1 = listeners two_emitters 1"
    "\<forall>s. Map_get 0 ''message'' two_emitters = Some s \<longrightarrow>
       listeners (call_unsubscribe (Closure s 5) two_emitters) 1 = listeners two_emitters 1"
    "\<forall>g. g \<notin> set (listeners two_emitters 0 ''message'') \<and>
         (\<forall>fn v w. calls_ok (\<lambda>x. x \<noteq> On 0 ''message'' g) (remover 5 7 fn v w)) \<longrightarrow>
         g \<notin> fst ` set (fst ?e)"
    "(\<forall>fn v w. calls_ok (\<lambda>x. \<not> registers_on two_emitters 1 x) (remover 5 7 fn v w)) \<longrightarrow>
       (\<forall>calls h' c. ?e = (calls, Some (h', c)) \<longrightarrow> listeners h' 1 = listeners two_emitters 1)"
    by blast+
  from i5(2) c have i5c: "listeners (call_unsubscribe (Closure 0 5) two_emitters) 1 = listeners two_emitters 1"
    by simp
  from i5(3) d p have i7: "7 \<notin> fst ` set (fst ?e)"
    by blast
  from i5(4) p' r have ih: "listeners (fst (the (snd ?e))) 1 = listeners two_emitters 1"
    by blast
  from i9 i5(1) i5c l i7 f ih g show ?thesis
    by blast
qed
text \<open>
  C10. For every emitter \<open>m\<close>, name \<open>N\<close> and listener \<open>f\<close>, with \<open>u\<close> the closure that
  \<open>on m N f\<close> returned: after any sequence of operations, with listeners that may
  themselves call the interface, invoking \<open>u\<close> and calling \<open>off m N f\<close> give the same heap,
  in which \<open>f\<close> is removed from the listeners of \<open>N\<close> as they were at that moment.
\<close>

theorem unsubscribe_is_off:
  assumes "m < map_count h"
    and "on m N f h = (u, h1)"
    and "run n beh ops (h1, w) = Some (h2, w2)"
  shows "call_unsubscribe u h2 = off m N f h2 \<and>
         listeners (call_unsubscribe u h2) m N = removeAll f (listeners h2 m N)"
proof -
  from on_closure [OF assms(2)] obtain s where u: "u = Closure s f" and s: "Map_get m N h1 = Some s"
    by blast
  have "map_count h1 = map_count h"
    using map_count_on [of m N f h] assms(2) by simp
  with assms(1) have "m < map_count h1"
    by simp
  from binding_run [OF this s assms(3)] have "Map_get m N h2 = Some s"
    by simp
  with u have "call_unsubscribe u h2 = off m N f h2"
    using call_unsubscribe_off [of m N h2 s f] by simp
  then show ?thesis
    by (simp add: listeners_off_same)
qed
theorem unsubscribe_is_off_witness:
  "map_option snd (run 5 (remover 5 7) between_registering (snd registered, []))
     = Some [(7, ''hello''), (5, ''hello'')] \<and>
   call_unsubscribe (fst registered) (fst (the (run 5 (remover 5 7) between_registering (snd registered, []))))
     = off 0 ''message'' 7 (fst (the (run 5 (remover 5 7) between_registering (snd registered, [])))) \<and>
   listeners (fst (the (run 5 (remover 5 7) between_registering (snd registered, [])))) 0 ''message'' = [5, 7] \<and>
   listeners (off 0 ''message'' 7 (fst (the (run 5 (remover 5 7) between_registering (snd registered, [])))))
       0 ''message'' = [5]"
proof -
  let ?r = "run 5 (remover 5 7) between_registering (snd registered, [])"
  have a: "0 < map_count fresh"
    by (simp add: run_defs)
  have b: "on 0 ''message'' 7 fresh = (fst registered, snd registered)"
    by (simp add: registered_def)
  have l: "map_option snd ?r = Some [(7, ''hello''), (5, ''hello'')]"
    by (simp add: run_defs)
  then have "?r \<noteq> None"
    by auto
  then have c: "?r = Some (fst (the ?r), snd (the ?r))"
    by (rule the_Some_pair)
  have d: "listeners (fst (the ?r)) 0 ''message'' = [5, 7]"
    by (simp add: run_defs)
  have e: "listeners (off 0 ''message'' 7 (fst (the ?r))) 0 ''message'' = [5]"
    by (simp add: run_defs)
  from unsubscribe_is_off [OF a b c] l d e show ?thesis
    by simp
qed
end
